theory Spec2Isabelle
  imports Complex_Main "HOL-Library.Sublist"
begin

section \<open>Strings as the route handler sees them\<close>

text \<open>
  A JavaScript string is modelled as a \<^typ>\<open>string\<close>, one \<^typ>\<open>char\<close> per code unit
  (code units below 256). Numbers that the source uses as counts and indices
  (\<open>size\<close>, \<open>overlap\<close>, \<open>depth\<close>, \<open>retries\<close>, \<open>delay\<close>) are \<^typ>\<open>int\<close>: the
  TypeScript type \<open>number\<close> does not exclude zero or negative values. Fractions and
  the range of floating-point numbers are left out.
\<close>

text \<open>The characters that \<open>String.prototype.trim\<close> and the regex class \<open>\s\<close> remove:
  tab, line feed, vertical tab, form feed, carriage return, space, no-break space.\<close>

definition is_ws :: "char \<Rightarrow> bool" where
  "is_ws c = (c \<in> set [CHR 0x09, CHR 0x0A, CHR 0x0B, CHR 0x0C, CHR 0x0D, CHR 0x20, CHR 0xA0])"

definition trim :: "string \<Rightarrow> string" where
  "trim s = rev (dropWhile is_ws (rev (dropWhile is_ws s)))"

text \<open>\<open>s.slice(start, end)\<close>: a negative index counts from the end, both indices are
  clamped to the string, and an empty range gives the empty string.\<close>

definition js_slice :: "string \<Rightarrow> int \<Rightarrow> int \<Rightarrow> string" where
  "js_slice s start end =
     (let len = int (length s);
          from = (if start < 0 then max (len + start) 0 else min start len);
          to = (if end < 0 then max (len + end) 0 else min end len)
      in if from \<ge> to then [] else take (nat (to - from)) (drop (nat from) s))"

section \<open>Text chunking\<close>

text \<open>
  \<^verbatim>\<open>
  function chunkText(text: string, size = 800, overlap = 200) {
    const chunks: string[] = [];
    for (let i = 0; i < text.length; i += size - overlap) {
      const piece = text.slice(i, i + size).trim();
      if (piece.length > 50) chunks.push(piece);
    }
    return chunks;
  }
  \<close>
  The loop has no bound of its own, so it is a partial function: \<open>None\<close> is a run that
  never returns.
\<close>

partial_function (option) chunk_loop ::
  "string \<Rightarrow> int \<Rightarrow> int \<Rightarrow> int \<Rightarrow> string list \<Rightarrow> string list option" where
  "chunk_loop text sz overlap i chunks =
     (if i < int (length text)
      then chunk_loop text sz overlap (i + (sz - overlap))
             (if 50 < length (trim (js_slice text i (i + sz)))
              then chunks @ [trim (js_slice text i (i + sz))] else chunks)
      else Some chunks)"

declare chunk_loop.simps [code]

definition chunkText :: "string \<Rightarrow> int \<Rightarrow> int \<Rightarrow> string list option" where
  "chunkText text sz overlap = chunk_loop text sz overlap 0 []"


text \<open>
  The spec's description of the chunker, for comparison with the loop: a window of
  \<open>size\<close> characters slides across the text, advancing by \<open>size - overlap\<close>; the
  windows start at \<open>0, step, 2 * step, \<dots>\<close> below the length of the text.
\<close>

definition window_count :: "nat \<Rightarrow> nat \<Rightarrow> nat" where
  "window_count len step = (len + step - 1) div step"

definition sliding_windows :: "string \<Rightarrow> int \<Rightarrow> int \<Rightarrow> string list" where
  "sliding_windows text sz overlap =
     map (\<lambda>k. js_slice text (int k * (sz - overlap)) (int k * (sz - overlap) + sz))
       [0..<window_count (length text) (nat (sz - overlap))]"

definition spec_chunks :: "string \<Rightarrow> int \<Rightarrow> int \<Rightarrow> string list" where
  "spec_chunks text sz overlap =
     filter (\<lambda>piece. 50 < length piece) (map trim (sliding_windows text sz overlap))"

section \<open>Errors, the store and the outside world\<close>

text \<open>
  A thrown JavaScript value, by what the handlers look at: whether it is an object with
  a \<open>statusCode\<close> key (then the key's value when it is a number, and the message,
  a string or absent as the cast in \<open>embedText\<close> declares), an object without that key (an \<open>Error\<close> or the error object the store
  client reports, with its message), or not an object at all.
\<close>

datatype thrown =
    Error string
  | Status_error "int option" "string option"
  | Primitive string

type_synonym vector = "real list"

record document =
  doc_url :: string
  chunk_index :: nat
  doc_text :: string
  doc_embedding :: vector

record lead =
  lead_name :: string
  lead_email :: string
  lead_phone :: "string option"
  lead_company :: "string option"
  lead_inquiry_type :: "string option"
  lead_message :: "string option"
  lead_contact_method :: "string option"
  lead_best_time :: "string option"
  lead_agree :: "bool option"
  lead_newsletter :: "bool option"

text \<open>What a loaded page gives to the scripts the crawler and the extractor run in it:
  \<open>window.location.origin\<close>, the \<open>href\<close> of every anchor in document order, and the
  whitespace-normalised text of the body's text nodes.\<close>

record page =
  origin :: string
  anchors :: "string list"
  visible_text :: string

record match_row =
  row_text :: string
  similarity :: real

record rpc_reply =
  data :: "match_row list option"
  error :: "thrown option"

text \<open>
  Effects on the outside world, in the order the code performs them: a navigation
  (\<open>page.goto\<close>), a call of the embedding model, a sleep, a nearest-neighbour query, a
  call of the language model with the retrieved text, and the start of the background
  run \<open>ensurePagesIndexed(baseUrl)\<close> (started, not awaited).
\<close>

datatype effect =
    Goto string
  | Embed_call string
  | Sleep int
  | Rpc_match vector int
  | Stream_text string
  | Spawn_indexing string

text \<open>
  The state the code reads and writes: the two tables of the store, the module-level
  flag \<open>indexingStarted\<close>, the log of effects, and the number of calls made to the
  embedding model so far.
\<close>

record world =
  documents :: "document list"
  user_leads :: "lead list"
  indexingStarted :: bool
  effects :: "effect list"
  embed_calls :: nat

text \<open>
  The external collaborators, as functions: the site (what a navigation to a URL
  gives: a page, or the error thrown), the embedding model (the outcome of its
  \<open>k\<close>-th call, so that a rate limit can lift), and the store's answers to a lead
  insert, to the insert of a chunk row and to the \<open>match_documents\<close> query (an error or
  none, given the table and the request), and whether the existence query fails, in
  which case its \<open>count\<close> is \<open>null\<close>.
\<close>

record env =
  web :: "string \<Rightarrow> thrown + page"
  embed_api :: "nat \<Rightarrow> string \<Rightarrow> thrown + vector"
  insert_lead :: "lead list \<Rightarrow> lead \<Rightarrow> thrown option"
  insert_document :: "document list \<Rightarrow> document \<Rightarrow> thrown option"
  count_error :: "document list \<Rightarrow> string \<Rightarrow> bool"
  match_documents :: "document list \<Rightarrow> vector \<Rightarrow> int \<Rightarrow> rpc_reply"

type_synonym 'a result = "(thrown + 'a) \<times> world"

definition perform :: "effect \<Rightarrow> world \<Rightarrow> world" where
  "perform e w = w\<lparr>effects := effects w @ [e]\<rparr>"

section \<open>Crawling\<close>

text \<open>
  \<^verbatim>\<open>
  async function crawlSiteRecursive(browser, baseUrl, depth = 2, visited = new Set()) {
    if (depth <= 0 || visited.has(baseUrl)) return [];
    visited.add(baseUrl);
    let page;
    try {
      page = await browser.newPage();
      await page.goto(baseUrl, ...);
      const links = await page.evaluate(() => Array.from(new Set(
        Array.from(document.querySelectorAll("a")).map(a => a.href)
          .filter(href => href.startsWith(window.location.origin)))));
      await page.close();
      const newLinks = [baseUrl];
      for (const link of links)
        newLinks.push(...await crawlSiteRecursive(browser, link, depth - 1, visited));
      return newLinks;
    } catch (error) { ...; return []; }
  }
  \<close>
  The set \<open>visited\<close> is shared by all recursive calls, so it is threaded through them
  together with the world. A \<open>Set\<close> keeps the first occurrence of each element.
\<close>

definition keep_first :: "'a list \<Rightarrow> 'a list" where
  "keep_first xs = rev (remdups (rev xs))"

definition page_links :: "page \<Rightarrow> string list" where
  "page_links p = keep_first (filter (\<lambda>href. prefix (origin p) href) (anchors p))"

function crawlSiteRecursive ::
    "env \<Rightarrow> string \<Rightarrow> int \<Rightarrow> string set \<Rightarrow> world \<Rightarrow> string list \<times> string set \<times> world"
  and crawl_links ::
    "env \<Rightarrow> string list \<Rightarrow> int \<Rightarrow> string list \<Rightarrow> string set \<Rightarrow> world
       \<Rightarrow> string list \<times> string set \<times> world"
where
  "crawlSiteRecursive E baseUrl depth visited w =
     (if depth \<le> 0 \<or> baseUrl \<in> visited then ([], visited, w)
      else (case web E baseUrl of
              Inl err \<Rightarrow> ([], insert baseUrl visited, perform (Goto baseUrl) w)
            | Inr p \<Rightarrow>
                crawl_links E (page_links p) (depth - 1) [baseUrl]
                  (insert baseUrl visited) (perform (Goto baseUrl) w)))"
| "crawl_links E [] depth newLinks visited w = (newLinks, visited, w)"
| "crawl_links E (link # links) depth newLinks visited w =
     (case crawlSiteRecursive E link depth visited w of
        (found, visited', w') \<Rightarrow> crawl_links E links depth (newLinks @ found) visited' w')"
  by pat_completeness auto
termination
  by (relation "measures
        [\<lambda>x. case x of Inl (E, u, d, v, w) \<Rightarrow> 2 * nat d | Inr (E, ls, d, nl, v, w) \<Rightarrow> 2 * nat d + 1,
         \<lambda>x. case x of Inl (E, u, d, v, w) \<Rightarrow> 0 | Inr (E, ls, d, nl, v, w) \<Rightarrow> length ls]")
     auto

section \<open>Scraping and embedding\<close>

text \<open>
  \<^verbatim>\<open>
  async function scrapePage(browser, url) {
    const page = await browser.newPage();
    try {
      await page.goto(url, ...);
      const text = await page.evaluate(...);
      return chunkText(text);
    } finally { await page.close(); }
  }
  \<close>
  \<open>chunkText\<close> is called with its defaults, 800 and 200.
\<close>

definition scrapePage :: "env \<Rightarrow> string \<Rightarrow> world \<Rightarrow> (string list) result option" where
  "scrapePage E url w =
     (case web E url of
        Inl err \<Rightarrow> Some (Inl err, perform (Goto url) w)
      | Inr p \<Rightarrow>
          (case chunkText (visible_text p) 800 200 of
             None \<Rightarrow> None
           | Some chunks \<Rightarrow> Some (Inr chunks, perform (Goto url) w)))"

text \<open>
  \<^verbatim>\<open>
  async function embedText(value, retries = 5, delay = 2000) {
    for (let i = 0; i < retries; i++) {
      try {
        const { embedding } = await embed({ model: embeddingModel, value });
        return embedding;
      } catch (err) {
        if (typeof err === "object" && err !== null && "statusCode" in err) {
          const e = err as { statusCode?: number; message?: string };
          if (e.statusCode === 429 || e.message?.includes("exhausted")) {
            await new Promise(r => setTimeout(r, delay));
            delay *= 2;
          } else { throw err; }
        } else { throw err; }
      }
    }
    throw new Error("Max retries reached for embedding");
  }
  \<close>
\<close>

fun has_statusCode :: "thrown \<Rightarrow> bool" where
  "has_statusCode (Status_error code msg) = True"
| "has_statusCode (Error msg) = False"
| "has_statusCode (Primitive v) = False"

fun quota_hit :: "thrown \<Rightarrow> bool" where
  "quota_hit (Status_error code msg) =
     (code = Some 429 \<or> (case msg of None \<Rightarrow> False | Some m \<Rightarrow> sublist ''exhausted'' m))"
| "quota_hit (Error msg) = False"
| "quota_hit (Primitive v) = False"

definition call_embed :: "string \<Rightarrow> world \<Rightarrow> world" where
  "call_embed value w = (perform (Embed_call value) w)\<lparr>embed_calls := Suc (embed_calls w)\<rparr>"

function embed_loop ::
  "env \<Rightarrow> string \<Rightarrow> int \<Rightarrow> int \<Rightarrow> int \<Rightarrow> world \<Rightarrow> vector result" where
  "embed_loop E value retries i delay w =
     (if i < retries
      then (case embed_api E (embed_calls w) value of
              Inr embedding \<Rightarrow> (Inr embedding, call_embed value w)
            | Inl err \<Rightarrow>
                if has_statusCode err
                then (if quota_hit err
                      then embed_loop E value retries (i + 1) (delay * 2)
                             (perform (Sleep delay) (call_embed value w))
                      else (Inl err, call_embed value w))
                else (Inl err, call_embed value w))
      else (Inl (Error ''Max retries reached for embedding''), w))"
  by pat_completeness auto
termination
  by (relation "measure (\<lambda>(E, value, retries, i, delay, w). nat (retries - i))") auto

definition embedText :: "env \<Rightarrow> string \<Rightarrow> int \<Rightarrow> int \<Rightarrow> world \<Rightarrow> vector result" where
  "embedText E value retries delay w = embed_loop E value retries 0 delay w"

section \<open>Indexing a page\<close>

text \<open>
  \<^verbatim>\<open>
  async function ensurePageIndexed(browser, url) {
    const { count } = await supabase.from('documents')
      .select('id', { count: 'exact', head: true }).eq('url', url);
    if (count && count > 0) return;
    const chunks = await scrapePage(browser, url);
    for (const [i, chunk] of chunks.entries()) {
      const vector = await embedText(chunk);
      await supabase.from('documents').insert([{ url, chunk_index: i, text: chunk, embedding: vector }]);
    }
  }
  \<close>
\<close>

definition count_rows :: "string \<Rightarrow> document list \<Rightarrow> nat" where
  "count_rows url docs = length (filter (\<lambda>d. doc_url d = url) docs)"

text \<open>The \<open>count\<close> of the existence query: the number of the URL's rows, or \<open>null\<close> when
  the query fails.\<close>

definition select_count :: "env \<Rightarrow> string \<Rightarrow> document list \<Rightarrow> nat option" where
  "select_count E url docs = (if count_error E docs url then None else Some (count_rows url docs))"

definition add_document :: "document \<Rightarrow> world \<Rightarrow> world" where
  "add_document d w = w\<lparr>documents := documents w @ [d]\<rparr>"

text \<open>The loop discards what the insert returns: a row the store refuses is not in the
  table, and the loop goes on with the next chunk.\<close>

fun index_chunks :: "env \<Rightarrow> string \<Rightarrow> nat \<Rightarrow> string list \<Rightarrow> world \<Rightarrow> unit result" where
  "index_chunks E url i [] w = (Inr (), w)"
| "index_chunks E url i (chunk # rest) w =
     (case embedText E chunk 5 2000 w of
        (Inl err, w') \<Rightarrow> (Inl err, w')
      | (Inr vector, w') \<Rightarrow>
          index_chunks E url (Suc i) rest
            (case insert_document E (documents w')
                    \<lparr>doc_url = url, chunk_index = i, doc_text = chunk, doc_embedding = vector\<rparr> of
               Some err \<Rightarrow> w'
             | None \<Rightarrow>
                 add_document
                   \<lparr>doc_url = url, chunk_index = i, doc_text = chunk, doc_embedding = vector\<rparr> w'))"

definition ensurePageIndexed :: "env \<Rightarrow> string \<Rightarrow> world \<Rightarrow> unit result option" where
  "ensurePageIndexed E url w =
     (let count = select_count E url (documents w)
      in if (case count of None \<Rightarrow> False | Some c \<Rightarrow> c \<noteq> 0 \<and> c > 0) then Some (Inr (), w)
         else (case scrapePage E url w of
                 None \<Rightarrow> None
               | Some (Inl err, w') \<Rightarrow> Some (Inl err, w')
               | Some (Inr chunks, w') \<Rightarrow> Some (index_chunks E url 0 chunks w')))"

section \<open>Search\<close>

text \<open>
  \<^verbatim>\<open>
  async function searchDocuments(query, topK = 5) {
    const queryEmb = await embedText(query);
    const { data, error } = await supabase.rpc('match_documents',
      { query_embedding: queryEmb, match_count: topK });
    if (error) throw error;
    return (data ?? []).map(d => d.text).join("\n\n");
  }
  \<close>
\<close>

fun join :: "string list \<Rightarrow> string \<Rightarrow> string" where
  "join [] sep = []"
| "join [x] sep = x"
| "join (x # y # ys) sep = x @ sep @ join (y # ys) sep"

definition blank_line :: string where
  "blank_line = [CHR 0x0A, CHR 0x0A]"

definition searchDocuments :: "env \<Rightarrow> string \<Rightarrow> int \<Rightarrow> world \<Rightarrow> string result" where
  "searchDocuments E query topK w =
     (case embedText E query 5 2000 w of
        (Inl err, w') \<Rightarrow> (Inl err, w')
      | (Inr queryEmb, w') \<Rightarrow>
          (let reply = match_documents E (documents w') queryEmb topK;
               w'' = perform (Rpc_match queryEmb topK) w'
           in case error reply of
                Some err \<Rightarrow> (Inl err, w'')
              | None \<Rightarrow>
                  (Inr (join (map row_text (case data reply of None \<Rightarrow> [] | Some rows \<Rightarrow> rows))
                          blank_line), w'')))"

section \<open>The request handler\<close>

text \<open>
  The request body as the handler reads it. \<open>messages\<close> and \<open>parts\<close> may be missing
  (\<open>body?.messages ?? []\<close>, \<open>?.parts?.filter\<close>), and so may \<open>query\<close>, \<open>metadata\<close>, \<open>form\<close>
  and the optional fields of the form.
\<close>

datatype role = User | Assistant | System

record chat_part =
  part_type :: string
  part_text :: string

record form =
  fullName :: string
  email :: string
  phone :: "string option"
  company :: "string option"
  inquiryType :: "string option"
  message :: "string option"
  contactMethod :: "string option"
  bestTime :: "string option"
  agree :: "bool option"
  newsletter :: "bool option"

record chat_metadata =
  form_of :: "form option"

record chat_message =
  role_of :: role
  parts :: "chat_part list option"
  metadata :: "chat_metadata option"

record body =
  messages :: "chat_message list option"
  query :: "string option"

text \<open>
  The three responses of the handler: status 500 with \<open>{ error: "Failed to save lead" }\<close>,
  status 200 with the thanks text for the submitted name, and the streamed answer of
  the language model.
\<close>

datatype response =
    Failed_to_save_lead
  | Thanks string
  | Ui_message_stream

fun status :: "response \<Rightarrow> nat" where
  "status Failed_to_save_lead = 500"
| "status (Thanks n) = 200"
| "status Ui_message_stream = 200"

definition lastUserMessage :: "body \<Rightarrow> chat_message option" where
  "lastUserMessage b =
     find (\<lambda>m. role_of m = User) (rev (case messages b of None \<Rightarrow> [] | Some ms \<Rightarrow> ms))"

definition formData :: "body \<Rightarrow> form option" where
  "formData b =
     (case lastUserMessage b of
        None \<Rightarrow> None
      | Some m \<Rightarrow> (case metadata m of None \<Rightarrow> None | Some md \<Rightarrow> form_of md))"

definition lead_of_form :: "form \<Rightarrow> lead" where
  "lead_of_form f =
     \<lparr>lead_name = fullName f, lead_email = email f, lead_phone = phone f,
      lead_company = company f, lead_inquiry_type = inquiryType f,
      lead_message = message f, lead_contact_method = contactMethod f,
      lead_best_time = bestTime f, lead_agree = agree f, lead_newsletter = newsletter f\<rparr>"

definition lastUserText :: "body \<Rightarrow> string" where
  "lastUserText b =
     (case query b of
        Some q \<Rightarrow> q
      | None \<Rightarrow>
          (case lastUserMessage b of
             None \<Rightarrow> []
           | Some m \<Rightarrow>
               (case parts m of
                  None \<Rightarrow> []
                | Some ps \<Rightarrow>
                    join (map part_text (filter (\<lambda>p. part_type p = ''text'') ps)) '' '')))"

definition site :: string where
  "site = ''https://www.techmurugan.in/''"

text \<open>
  \<^verbatim>\<open>
  let indexingStarted = false;
  export async function POST(req) {
    ...
    const formData = lastUserMessage?.metadata?.form;
    if (formData) {
      const { error } = await supabase.from('user_leads').insert([{ name: formData.fullName, ... }]);
      if (error) return new Response(JSON.stringify({ error: "Failed to save lead" }), { status: 500 });
      return new Response(JSON.stringify({ text: `... Thanks ${formData.fullName}! ...` }), { status: 200 });
    }
    const lastUserText = body?.query ?? ... ?? '';
    if (!indexingStarted) {
      indexingStarted = true;
      ensurePagesIndexed('https://www.techmurugan.in/').catch(console.error);
    }
    let retrievedText = '';
    if (lastUserText) {
      try { retrievedText = await searchDocuments(lastUserText, 4); }
      catch (e) { console.error('Vector search error:', e); }
    }
    const result = streamText({ ... });
    return result.toUIMessageStreamResponse();
  }
  \<close>
  The background run is started and not awaited: the handler records its start and
  goes on. The tools that the language model may call while it streams are the
  model's doing and are not part of the handler's own steps.
\<close>

definition start_indexing :: "world \<Rightarrow> world" where
  "start_indexing w =
     (if \<not> indexingStarted w
      then perform (Spawn_indexing site) (w\<lparr>indexingStarted := True\<rparr>)
      else w)"

definition retrieve :: "env \<Rightarrow> string \<Rightarrow> world \<Rightarrow> string \<times> world" where
  "retrieve E q w =
     (if q \<noteq> []
      then (case searchDocuments E q 4 w of
              (Inr found, w') \<Rightarrow> (found, w')
            | (Inl err, w') \<Rightarrow> ([], w'))
      else ([], w))"

definition POST :: "env \<Rightarrow> body \<Rightarrow> world \<Rightarrow> response \<times> world" where
  "POST E b w =
     (case formData b of
        Some f \<Rightarrow>
          (case insert_lead E (user_leads w) (lead_of_form f) of
             Some err \<Rightarrow> (Failed_to_save_lead, w)
           | None \<Rightarrow> (Thanks (fullName f), w\<lparr>user_leads := user_leads w @ [lead_of_form f]\<rparr>))
      | None \<Rightarrow>
          (case retrieve E (lastUserText b) (start_indexing w) of
             (retrievedText, w') \<Rightarrow> (Ui_message_stream, perform (Stream_text retrievedText) w')))"

text \<open>A process: the flag is false when the module is loaded, the store holds whatever
  it held, and the requests are served one after the other.\<close>

definition process_start :: "document list \<Rightarrow> lead list \<Rightarrow> world" where
  "process_start docs leads =
     \<lparr>documents = docs, user_leads = leads, indexingStarted = False, effects = [],
      embed_calls = 0\<rparr>"

fun serve :: "env \<Rightarrow> body list \<Rightarrow> world \<Rightarrow> world" where
  "serve E [] w = w"
| "serve E (b # bs) w = serve E bs (snd (POST E b w))"

definition spawns :: "world \<Rightarrow> nat" where
  "spawns w = length (filter (\<lambda>e. case e of Spawn_indexing u \<Rightarrow> True | _ \<Rightarrow> False) (effects w))"

text \<open>
  The chat form's check of an e-mail address, \<open>/^[^\s@]+@[^\s@]+\.[^\s@]+$/\<close>: a
  non-empty part without whitespace or \<open>@\<close>, an \<open>@\<close>, and a part without whitespace
  or \<open>@\<close> that has a dot with at least one character on each side.
\<close>

definition email_char :: "char \<Rightarrow> bool" where
  "email_char c = (\<not> is_ws c \<and> c \<noteq> CHR ''@'')"

definition emailRegex_test :: "string \<Rightarrow> bool" where
  "emailRegex_test s =
     (let local_part = takeWhile (\<lambda>c. c \<noteq> CHR ''@'') s;
          rest = dropWhile (\<lambda>c. c \<noteq> CHR ''@'') s
      in local_part \<noteq> [] \<and> list_all email_char local_part \<and> rest \<noteq> [] \<and>
         list_all email_char (tl rest) \<and> CHR ''.'' \<in> set (butlast (tl (tl rest))))"

section \<open>Notions used in the statements\<close>

text \<open>The world after \<open>n\<close> rounds of a failed call of the embedding model followed by a
  sleep, the delay doubling from round to round.\<close>

fun backoff :: "nat \<Rightarrow> string \<Rightarrow> int \<Rightarrow> world \<Rightarrow> world" where
  "backoff 0 value delay w = w"
| "backoff (Suc n) value delay w =
     backoff n value (delay * 2) (perform (Sleep delay) (call_embed value w))"

text \<open>The calls number \<open>c, c + 1, \<dots>, c + n - 1\<close> of the embedding model all fail with
  an error that \<open>embedText\<close> takes for a quota signal.\<close>

fun rate_limited :: "env \<Rightarrow> string \<Rightarrow> nat \<Rightarrow> nat \<Rightarrow> bool" where
  "rate_limited E value c 0 = True"
| "rate_limited E value c (Suc n) =
     ((case embed_api E c value of
         Inl err \<Rightarrow> has_statusCode err \<and> quota_hit err
       | Inr v \<Rightarrow> False)
      \<and> rate_limited E value (Suc c) n)"

text \<open>What embedding, indexing and search leave alone: the leads, the flag and the
  number of background runs started.\<close>

definition same_store_flag :: "world \<Rightarrow> world \<Rightarrow> bool" where
  "same_store_flag w w' \<longleftrightarrow>
     user_leads w' = user_leads w \<and> indexingStarted w' = indexingStarted w \<and> spawns w' = spawns w"



text \<open>The flag counts the background runs: one run started when it is set, none before.\<close>

definition flag_counts :: "world \<Rightarrow> bool" where
  "flag_counts w \<longleftrightarrow> spawns w = (if indexingStarted w then 1 else 0)"

text \<open>What a crawl from the visited set \<open>V\<close> and world \<open>w\<close> returns: the links given
  plus URLs found, each once; every URL added to the visited set was navigated to,
  exactly once, and was not in \<open>V\<close>.\<close>

definition crawl_inv ::
  "string set \<Rightarrow> world \<Rightarrow> string list \<Rightarrow> string list \<times> string set \<times> world \<Rightarrow> bool" where
  "crawl_inv V w newLinks r =
     (case r of (res, V', w') \<Rightarrow>
        (\<exists>found navigated. res = newLinks @ found \<and> distinct found \<and> set found \<subseteq> set navigated
           \<and> distinct navigated \<and> set navigated \<inter> V = {} \<and> V' = V \<union> set navigated
           \<and> effects w' = effects w @ map Goto navigated))"

section \<open>A small site for concrete runs\<close>

text \<open>
  Page \<open>s/a\<close> links to \<open>s/b\<close>, to itself and to another origin; \<open>s/b\<close> links back to
  \<open>s/a\<close> and to \<open>s/c\<close>, which times out. The embedding model answers the text \<open>bad\<close>
  with a quota error and then a server error, and every other text with two quota
  errors before it succeeds. The store accepts every lead and every chunk row and
  answers every existence query; the match query fails on a negative count and
  otherwise returns the first rows of the table. A second store differs in that
  it refuses the insert of a row with index 0.
\<close>

definition demo_site :: "string \<Rightarrow> thrown + page" where
  "demo_site u =
     (if u = ''s/a''
      then Inr \<lparr>origin = ''s/'', anchors = [''s/b'', ''x/z'', ''s/a'', ''s/b''],
                visible_text = replicate 700 CHR ''a''\<rparr>
      else if u = ''s/b''
      then Inr \<lparr>origin = ''s/'', anchors = [''s/a'', ''s/c''], visible_text = ''short''\<rparr>
      else Inl (Error ''timeout''))"

definition demo_embed :: "nat \<Rightarrow> string \<Rightarrow> thrown + vector" where
  "demo_embed k value =
     (if value = ''bad''
      then (if k < 1 then Inl (Status_error (Some 429) None)
            else Inl (Status_error (Some 500) (Some ''internal error'')))
      else if k = 0 then Inl (Status_error (Some 429) None)
      else if k = 1 then Inl (Status_error (Some 503) (Some ''quota exhausted''))
      else Inr [1, 2])"

definition demo_match :: "document list \<Rightarrow> vector \<Rightarrow> int \<Rightarrow> rpc_reply" where
  "demo_match docs v k =
     (if k < 0 then \<lparr>data = None, error = Some (Error ''invalid match_count'')\<rparr>
      else \<lparr>data = Some (map (\<lambda>d. \<lparr>row_text = doc_text d, similarity = 1\<rparr>) (take (nat k) docs)),
            error = None\<rparr>)"

definition demo_env :: env where
  "demo_env =
     \<lparr>web = demo_site, embed_api = demo_embed, insert_lead = (\<lambda>leads l. None),
      insert_document = (\<lambda>docs d. None), count_error = (\<lambda>docs u. False),
      match_documents = demo_match\<rparr>"

definition flaky_env :: env where
  "flaky_env =
     demo_env\<lparr>insert_document :=
       (\<lambda>docs d. if chunk_index d = 0 then Some (Error ''insert failed'') else None)\<rparr>"


definition jane :: form where
  "jane =
     \<lparr>fullName = ''Jane Doe'', email = ''not-an-email'', phone = None, company = None,
      inquiryType = None, message = None, contactMethod = None, bestTime = None,
      agree = None, newsletter = None\<rparr>"

definition form_body :: "form \<Rightarrow> body" where
  "form_body f =
     \<lparr>messages = Some [\<lparr>role_of = User,
                         parts = Some [\<lparr>part_type = ''text'',
                                        part_text = ''Customer Follow-Up Form submitted''\<rparr>],
                         metadata = Some \<lparr>form_of = Some f\<rparr>\<rparr>],
      query = None\<rparr>"

definition chat_body :: "string \<Rightarrow> body" where
  "chat_body t =
     \<lparr>messages = Some [\<lparr>role_of = User, parts = Some [\<lparr>part_type = ''text'', part_text = t\<rparr>],
                         metadata = None\<rparr>],
      query = None\<rparr>"

declare embed_loop.simps [simp del]
declare crawlSiteRecursive.simps [simp del]

section \<open>The chunker: termination and the sliding window\<close>

text \<open>With a step \<open>size - overlap\<close> of zero or less the index never reaches the end of
  a non-empty text: no run of the loop returns.\<close>

lemma chunk_loop_stuck: 
  assumes "chunk_loop t sz overlap i acc = Some r" 
  shows "\<not> (sz - overlap \<le> 0 \<and> i < int (length t))"
proof (rule chunk_loop.raw_induct[where P = "\<lambda>t sz overlap i acc r. \<not> (sz - overlap \<le> 0 \<and> i < int (length t))", OF _ assms])
  fix f t sz overlap i chunks r
  assume IH: "\<And>t sz overlap i chunks r. f t sz overlap i chunks = Some r \<Longrightarrow> \<not> (sz - overlap \<le> 0 \<and> i < int (length t))"
    and run: "(if i < int (length t)
        then f t sz overlap (i + (sz - overlap))
              (if 50 < length (trim (js_slice t i (i + sz)))
               then chunks @ [trim (js_slice t i (i + sz))] else chunks)
        else Some chunks) = Some (r::string list)"
  show "\<not> (sz - overlap \<le> 0 \<and> i < int (length t))"
  proof
    assume a: "sz - overlap \<le> 0 \<and> i < int (length t)"
    with run obtain c where "f t sz overlap (i + (sz - overlap)) c = Some r" by simp
    from IH[OF this] a show False by linarith
  qed
qed

lemma window_count_less: assumes "0 < step" shows "k < window_count len step \<longleftrightarrow> k * step < len"
proof -
  have "k < window_count len step \<longleftrightarrow> Suc k \<le> (len + step - 1) div step"
    by (simp add: window_count_def less_eq_Suc_le)
  also have "\<dots> \<longleftrightarrow> Suc k * step \<le> len + step - 1"
    using assms by (simp add: less_eq_div_iff_mult_less_eq)
  also have "\<dots> \<longleftrightarrow> k * step < len"
    using assms by auto
  finally show ?thesis .
qed

lemma chunk_loop_closed:
  assumes "0 < step" "sz - overlap = int step"
  shows "chunk_loop t sz overlap (int (k * step)) acc =
     Some (acc @ filter (\<lambda>p. 50 < length p)
        (map (\<lambda>j. trim (js_slice t (int (j * step)) (int (j * step) + sz))) [k..<window_count (length t) step]))"
proof (induction "window_count (length t) step - k" arbitrary: k acc)
  case 0
  then have "\<not> k < window_count (length t) step" by simp
  then have "\<not> k * step < length t" using window_count_less[OF assms(1)] by simp
  then have "\<not> int (k * step) < int (length t)" by (simp only: of_nat_less_iff not_False_eq_True)
  then have "chunk_loop t sz overlap (int (k * step)) acc = Some acc"
    by (subst chunk_loop.simps) (simp only: if_False)
  then show ?case using 0 by simp
next
  case (Suc n)
  then have lt: "k < window_count (length t) step" by simp
  then have "k * step < length t" using window_count_less[OF assms(1)] by simp
  then have c: "int (k * step) < int (length t)" by (simp only: of_nat_less_iff)
  have n: "n = window_count (length t) step - Suc k" using Suc by simp
  have nx: "int (k * step) + (sz - overlap) = int (Suc k * step)" using assms by simp
  have "chunk_loop t sz overlap (int (k * step)) acc = 
     chunk_loop t sz overlap (int (Suc k * step)) 
        (if 50 < length (trim (js_slice t (int (k * step)) (int (k * step) + sz)))
              then acc @ [trim (js_slice t (int (k * step)) (int (k * step) + sz))] else acc)"
    by (subst chunk_loop.simps) (simp only: c if_True nx)
  also have "\<dots> = Some (acc @ filter (\<lambda>p. 50 < length p)
        (map (\<lambda>j. trim (js_slice t (int (j * step)) (int (j * step) + sz))) [k..<window_count (length t) step]))"
    by (simp only: Suc(1)[OF n] upt_conv_Cons[OF lt]) simp
  finally show ?case .
qed

lemma chunkText_refines:
  assumes "overlap < sz"
  shows "chunkText t sz overlap = Some (spec_chunks t sz overlap)"
proof -
  define step where "step = nat (sz - overlap)"
  have s: "0 < step" "sz - overlap = int step" using assms by (simp_all add: step_def)
  have "chunkText t sz overlap = chunk_loop t sz overlap (int (0 * step)) []"
    by (simp add: chunkText_def)
  also note chunk_loop_closed[OF s]
  finally show ?thesis
    by (simp add: spec_chunks_def sliding_windows_def s(2) step_def[symmetric] comp_def)
qed

lemma chunkText_returns_iff:
  "chunkText t sz overlap \<noteq> None \<longleftrightarrow> t = [] \<or> overlap < sz"
proof (cases "overlap < sz")
  case True
  then show ?thesis by (simp add: chunkText_refines)
next
  case False
  show ?thesis
  proof (cases "t = []")
    case True
    then show ?thesis by (simp add: chunkText_def chunk_loop.simps)
  next
    case nonempty: False
    have "chunkText t sz overlap = None"
    proof (cases "chunkText t sz overlap")
      case (Some r)
      then show ?thesis
        using chunk_loop_stuck[of t sz overlap 0 "[]" r] False nonempty
        by (simp add: chunkText_def)
    qed simp
    then show ?thesis using False nonempty by simp
  qed
qed

lemma trim_trim: "trim (trim s) = trim s"
proof -
  define a where "a = dropWhile is_ws s"
  define b where "b = dropWhile is_ws (rev a)"
  have b_head: "b = [] \<or> \<not> is_ws (hd b)" unfolding b_def using hd_dropWhile by blast
  have a_head: "a = [] \<or> \<not> is_ws (hd a)" unfolding a_def using hd_dropWhile by blast
  obtain c where c: "rev a = c @ b" unfolding b_def by (metis takeWhile_dropWhile_id)
  have "dropWhile is_ws (rev b) = rev b"
  proof (cases "b = []")
    case False
    from c have "a = rev b @ rev c" by (metis rev_append rev_rev_ident)
    with False have "hd (rev b) = hd a" by simp
    moreover have "a \<noteq> []" using c False by auto
    ultimately show ?thesis using a_head False by (simp add: dropWhile_eq_self_iff)
  qed simp
  moreover have "dropWhile is_ws b = b" using b_head by (simp add: dropWhile_eq_self_iff)
  ultimately show ?thesis by (simp add: trim_def a_def[symmetric] b_def[symmetric])
qed

lemma trim_blank: "list_all is_ws s \<Longrightarrow> trim s = []"
proof -
  assume "list_all is_ws s"
  then have "dropWhile is_ws s = []" by (induction s) auto
  then have "trim s = rev (dropWhile is_ws (rev []))" by (simp only: trim_def)
  then show ?thesis by simp
qed

lemma set_js_slice: "set (js_slice s a b) \<subseteq> set s"
  by (auto simp: js_slice_def Let_def dest!: in_set_takeD in_set_dropD)

lemma js_slice_window:
  assumes "i < length s" "0 < sz"
  shows "js_slice s (int i) (int i + sz) = take (nat sz) (drop i s)"
proof -
  have "take (nat (min (int i + sz) (int (length s)) - int i)) (drop i s) = take (nat sz) (drop i s)"
  proof (cases "int i + sz \<le> int (length s)")
    case True
    then show ?thesis by (simp add: min_def)
  next
    case False
    then have "nat sz \<ge> length (drop i s)" by simp
    moreover from False have "nat (min (int i + sz) (int (length s)) - int i) = length (drop i s)"
      using assms by (simp add: min_def)
    ultimately show ?thesis by simp 
  qed
  then show ?thesis using assms by (simp add: js_slice_def Let_def min_def)
qed

lemma concat_steps: "concat (map (\<lambda>k. take step (drop (k * step) xs)) [0..<n]) = take (n * step) xs"
proof (induction n)
  case (Suc n)
  have "take (Suc n * step) xs = take (n * step + step) xs" by (simp add: add.commute)
  also have "\<dots> = take (n * step) xs @ take step (drop (n * step) xs)" by (rule take_add)
  finally show ?case using Suc by simp
qed simp

lemma windows_cover:
  assumes "0 \<le> overlap" "overlap < sz"
  shows "concat (map (take (nat (sz - overlap))) (sliding_windows t sz overlap)) = t"
proof -
  define step where "step = nat (sz - overlap)"
  define n where "n = window_count (length t) step"
  have s: "0 < step" "sz - overlap = int step" "step \<le> nat sz" "0 < sz" using assms by (simp_all add: step_def)
  have "map (take step) (sliding_windows t sz overlap) = map (\<lambda>k. take step (drop (k * step) t)) [0..<n]"
  proof -
    have "take step (js_slice t (int k * int step) (int k * int step + sz)) = take step (drop (k * step) t)"
      if "k < n" for k
    proof -
      from that have "k * step < length t" using window_count_less[OF s(1)] n_def by simp
      from js_slice_window[OF this s(4)] show ?thesis using s(3) by (simp add: min_def)
    qed
    then show ?thesis 
      by (simp add: sliding_windows_def s(2) step_def[symmetric] n_def[symmetric])
  qed
  moreover have "length t \<le> n * step"
    using window_count_less[OF s(1), of n "length t"] n_def by simp
  ultimately show ?thesis by (simp add: concat_steps step_def[symmetric])
qed


lemma sliding_windows_take_drop:
  assumes "0 \<le> overlap" "overlap < sz"
  shows "sliding_windows t sz overlap =
        map (\<lambda>k. take (nat sz) (drop (k * nat (sz - overlap)) t))
          [0..<window_count (length t) (nat (sz - overlap))]"
proof -
  define step where "step = nat (sz - overlap)"
  have s: "0 < step" "sz - overlap = int step" "0 < sz" using assms by (simp_all add: step_def)
  have "js_slice t (int k * int step) (int k * int step + sz) = take (nat sz) (drop (k * step) t)"
    if "k < window_count (length t) step" for k
  proof -
    from that have "k * step < length t" using window_count_less[OF s(1)] by simp
    from js_slice_window[OF this s(3)] show ?thesis by simp
  qed
  then show ?thesis
    by (simp add: sliding_windows_def s(2) step_def[symmetric])
qed

lemma spec_chunks_blank:
  assumes "list_all is_ws t"
  shows "spec_chunks t sz overlap = []"
proof -
  have "trim (js_slice t a b) = []" for a b
  proof (rule trim_blank)
    show "list_all is_ws (js_slice t a b)"
      using assms set_js_slice[of t a b] by (auto simp: list_all_iff)
  qed
  then show ?thesis by (simp add: spec_chunks_def sliding_windows_def comp_def)
qed

text \<open>
  Claim C5, as the code has it. The claim says that \<open>chunkText\<close> validates \<open>size\<close> and
  \<open>overlap\<close> and therefore terminates for every text and every choice of the two. The
  function has no such check: it returns exactly when the text is empty or
  \<open>overlap < size\<close>, and runs forever on a non-empty text with \<open>overlap \<ge> size\<close>.
\<close>

theorem chunkText_terminates_iff:
  "(\<exists>chunks. chunkText text sz overlap = Some chunks) \<longleftrightarrow> (text = [] \<or> overlap < sz)"
  using chunkText_returns_iff by auto

text \<open>Claim C5 at a concrete input: a three-character text with \<open>size = 2\<close>,
  \<open>overlap = 1\<close> is chunked.\<close>

theorem chunkText_terminates_iff_witness:
  "\<exists>chunks. chunkText ''abc'' 2 1 = Some chunks"
  using chunkText_terminates_iff[of "''abc''" 2 1] by simp

text \<open>Claim C5 as stated fails: with \<open>size = overlap = 1\<close> the call on the text \<open>a\<close>
  never returns.\<close>

theorem chunkText_equal_overlap_counterexample:
  "chunkText ''a'' 1 1 = None"
  using chunkText_returns_iff[of "''a''" 1 1] by simp

text \<open>
  Claim C6, amended by \<open>0 \<le> overlap\<close>. For every text and every \<open>size\<close> and \<open>overlap\<close>
  with \<open>0 \<le> overlap < size\<close>, \<open>chunkText\<close> returns the trimmed windows longer than 50
  characters, where the windows are the stretches of \<open>size\<close> characters that start at
  the multiples of \<open>size - overlap\<close>; the first \<open>size - overlap\<close> characters of the
  windows, in order, make up the text again (the windows cover it, overlap apart);
  trimming an emitted segment again leaves more than 50 characters; and a text of
  whitespace only gives no segment.
\<close>

theorem chunkText_sliding_window:
  assumes "0 \<le> overlap" and "overlap < sz"
  shows "chunkText text sz overlap = Some (spec_chunks text sz overlap)
    \<and> sliding_windows text sz overlap =
        map (\<lambda>k. take (nat sz) (drop (k * nat (sz - overlap)) text))
          [0..<window_count (length text) (nat (sz - overlap))]
    \<and> concat (map (take (nat (sz - overlap))) (sliding_windows text sz overlap)) = text
    \<and> list_all (\<lambda>c. 50 < length (trim c)) (spec_chunks text sz overlap)
    \<and> (list_all is_ws text \<longrightarrow> chunkText text sz overlap = Some [])"
proof -
  have refines: "chunkText text sz overlap = Some (spec_chunks text sz overlap)"
    using assms(2) by (rule chunkText_refines)
  have windows: "sliding_windows text sz overlap =
        map (\<lambda>k. take (nat sz) (drop (k * nat (sz - overlap)) text))
          [0..<window_count (length text) (nat (sz - overlap))]"
    using assms by (rule sliding_windows_take_drop)
  have cover: "concat (map (take (nat (sz - overlap))) (sliding_windows text sz overlap)) = text"
    using assms by (rule windows_cover)
  have long: "list_all (\<lambda>c. 50 < length (trim c)) (spec_chunks text sz overlap)"
    by (auto simp: spec_chunks_def list_all_iff trim_trim)
  have blank: "list_all is_ws text \<longrightarrow> chunkText text sz overlap = Some []"
    using refines by (simp add: spec_chunks_blank)
  from refines windows cover long blank show ?thesis by blast
qed

text \<open>Claim C6 at a concrete input: 130 characters with \<open>size = 60\<close>, \<open>overlap = 9\<close>
  give windows at 0, 51 and 102; the third, 28 characters long, is not emitted.\<close>

theorem chunkText_sliding_window_witness:
  "(0::int) \<le> 9 \<and> (9::int) < 60
   \<and> chunkText (replicate 130 CHR ''a'') 60 9 = Some (spec_chunks (replicate 130 CHR ''a'') 60 9)
   \<and> spec_chunks (replicate 130 CHR ''a'') 60 9 = [replicate 60 CHR ''a'', replicate 60 CHR ''a'']
   \<and> concat (map (take (nat (60 - 9))) (sliding_windows (replicate 130 CHR ''a'') 60 9))
        = replicate 130 CHR ''a''"
proof -
  have h1: "(0::int) \<le> 9" and h2: "(9::int) < 60" by simp_all
  have "spec_chunks (replicate 130 CHR ''a'') 60 9 = [replicate 60 CHR ''a'', replicate 60 CHR ''a'']"
    by code_simp
  with chunkText_sliding_window[OF h1 h2, of "replicate 130 CHR ''a''"] h1 h2
  show ?thesis by blast
qed

text \<open>Claim C6 as stated fails for a negative overlap, which \<open>overlap < size\<close> admits:
  with \<open>size = 60\<close> and \<open>overlap = -60\<close> the step is 120, and of a text of 60 times
  \<open>a\<close> and 60 times \<open>b\<close> the only window and the only segment is the run of \<open>a\<close>;
  no \<open>b\<close> is covered.\<close>

theorem chunkText_negative_overlap_counterexample:
  "(-60::int) < 60
   \<and> chunkText (replicate 60 CHR ''a'' @ replicate 60 CHR ''b'') 60 (-60) = Some [replicate 60 CHR ''a'']
   \<and> sliding_windows (replicate 60 CHR ''a'' @ replicate 60 CHR ''b'') 60 (-60) = [replicate 60 CHR ''a'']"
  by code_simp

section \<open>The crawler visits every URL at most once\<close>

lemma crawl_inv_both:
  "crawl_inv V w [] (crawlSiteRecursive E baseUrl depth V w)"
  "crawl_inv V w newLinks (crawl_links E links depth newLinks V w)"
proof (induction E baseUrl depth V w and E links depth newLinks V w
        rule: crawlSiteRecursive_crawl_links.induct)
  case (1 E baseUrl depth visited w)
  show ?case
  proof (cases "depth \<le> 0 \<or> baseUrl \<in> visited")
    case True
    then show ?thesis by (simp add: crawlSiteRecursive.simps crawl_inv_def)
  next
    case False
    show ?thesis
    proof (cases "web E baseUrl")
      case (Inl err)
      with False have "crawlSiteRecursive E baseUrl depth visited w =
          ([], insert baseUrl visited, perform (Goto baseUrl) w)"
        by (simp add: crawlSiteRecursive.simps)
      moreover have "\<exists>navigated. distinct navigated \<and> set navigated \<inter> visited = {} \<and>
          insert baseUrl visited = visited \<union> set navigated \<and>
          effects (perform (Goto baseUrl) w) = effects w @ map Goto navigated"
        using False by (intro exI[of _ "[baseUrl]"]) (simp add: perform_def)
      ultimately show ?thesis by (simp add: crawl_inv_def)
    next
      case (Inr p)
      with False have eq: "crawlSiteRecursive E baseUrl depth visited w =
          crawl_links E (page_links p) (depth - 1) [baseUrl] (insert baseUrl visited)
            (perform (Goto baseUrl) w)"
        by (simp add: crawlSiteRecursive.simps)
      obtain res V' w' where r: "crawl_links E (page_links p) (depth - 1) [baseUrl]
          (insert baseUrl visited) (perform (Goto baseUrl) w) = (res, V', w')"
        by (cases "crawl_links E (page_links p) (depth - 1) [baseUrl]
          (insert baseUrl visited) (perform (Goto baseUrl) w)") auto
      from "1.IH"[OF False Inr] r obtain found navigated where
        f: "res = [baseUrl] @ found" "distinct found" "set found \<subseteq> set navigated"
           "distinct navigated" "set navigated \<inter> insert baseUrl visited = {}"
           "V' = insert baseUrl visited \<union> set navigated"
           "effects w' = effects (perform (Goto baseUrl) w) @ map Goto navigated"
        by (auto simp: crawl_inv_def)
      have "res = [] @ (baseUrl # found) \<and> distinct (baseUrl # found)
           \<and> set (baseUrl # found) \<subseteq> set (baseUrl # navigated)
           \<and> distinct (baseUrl # navigated) \<and> set (baseUrl # navigated) \<inter> visited = {}
           \<and> V' = visited \<union> set (baseUrl # navigated)
           \<and> effects w' = effects w @ map Goto (baseUrl # navigated)"
        using f False by (auto simp: perform_def)
      then show ?thesis unfolding eq r crawl_inv_def by (simp only: prod.case) blast
    qed
  qed
next
  case (2 E depth newLinks visited w)
  have "\<exists>found navigated. newLinks = newLinks @ found \<and> distinct found \<and> set found \<subseteq> set navigated
           \<and> distinct navigated \<and> set navigated \<inter> visited = {} \<and> visited = visited \<union> set navigated
           \<and> effects w = effects w @ map Goto navigated"
    by (intro exI[of _ "[]"]) simp
  then show ?case by (simp add: crawl_inv_def)
next
  case (3 E link links depth newLinks visited w)
  obtain found1 V1 w1 where r1: "crawlSiteRecursive E link depth visited w = (found1, V1, w1)"
    by (cases "crawlSiteRecursive E link depth visited w") auto
  obtain res V2 w2 where r2: "crawl_links E links depth (newLinks @ found1) V1 w1 = (res, V2, w2)"
    by (cases "crawl_links E links depth (newLinks @ found1) V1 w1") auto
  from "3.IH"(1) r1 obtain nav1 where
    a: "distinct found1" "set found1 \<subseteq> set nav1" "distinct nav1" "set nav1 \<inter> visited = {}"
       "V1 = visited \<union> set nav1" "effects w1 = effects w @ map Goto nav1"
    by (auto simp: crawl_inv_def)
  from "3.IH"(2)[OF r1[symmetric] refl] r2 obtain found2 nav2 where
    b: "res = (newLinks @ found1) @ found2" "distinct found2" "set found2 \<subseteq> set nav2"
       "distinct nav2" "set nav2 \<inter> V1 = {}" "V2 = V1 \<union> set nav2"
       "effects w2 = effects w1 @ map Goto nav2"
    by (auto simp: crawl_inv_def)
  have "res = newLinks @ (found1 @ found2) \<and> distinct (found1 @ found2)
       \<and> set (found1 @ found2) \<subseteq> set (nav1 @ nav2) \<and> distinct (nav1 @ nav2)
       \<and> set (nav1 @ nav2) \<inter> visited = {} \<and> V2 = visited \<union> set (nav1 @ nav2)
       \<and> effects w2 = effects w @ map Goto (nav1 @ nav2)"
    using a b by auto
  moreover have "crawl_links E (link # links) depth newLinks visited w = (res, V2, w2)"
    by (simp add: r1 r2)
  ultimately show ?case unfolding crawl_inv_def by (simp only: prod.case) blast
qed

text \<open>
  Claim C2. \<open>crawlSiteRecursive\<close> is a total function: for every site, cyclic or not,
  every seed, depth and visited set it returns. The URLs it returns are pairwise
  distinct; the navigations it performs are pairwise distinct and avoid the URLs
  visited before, and the visited set grows by exactly the URLs navigated to, so
  a URL once in the visited set is not navigated to again in the run.
\<close>

theorem crawlSiteRecursive_visits_once:
  "case crawlSiteRecursive E seedUrl maxDepth visited w of
     (urls, visited', w') \<Rightarrow>
       distinct urls \<and>
       (\<exists>navigated. effects w' = effects w @ map Goto navigated \<and> distinct navigated
          \<and> set navigated \<inter> visited = {} \<and> visited' = visited \<union> set navigated
          \<and> set urls \<subseteq> set navigated)"
  using crawl_inv_both(1)[of visited w E seedUrl maxDepth]
  by (auto simp: crawl_inv_def)

text \<open>Claim C2 on the small site, whose pages \<open>s/a\<close> and \<open>s/b\<close> link to each other:
  the crawl from \<open>s/a\<close> with depth 3 returns both once and navigates three times.\<close>

theorem crawlSiteRecursive_visits_once_witness:
  "crawlSiteRecursive demo_env ''s/a'' 3 {} (process_start [] []) =
     ([''s/a'', ''s/b''], {''s/a'', ''s/b'', ''s/c''},
      (process_start [] [])\<lparr>effects := [Goto ''s/a'', Goto ''s/b'', Goto ''s/c'']\<rparr>)
   \<and> (case crawlSiteRecursive demo_env ''s/a'' 3 {} (process_start [] []) of
        (urls, visited', w') \<Rightarrow>
          distinct urls \<and>
          (\<exists>navigated. effects w' = effects (process_start [] []) @ map Goto navigated
             \<and> distinct navigated \<and> set navigated \<inter> {} = {} \<and> visited' = {} \<union> set navigated
             \<and> set urls \<subseteq> set navigated))"
proof
  show "crawlSiteRecursive demo_env ''s/a'' 3 {} (process_start [] []) =
     ([''s/a'', ''s/b''], {''s/a'', ''s/b'', ''s/c''},
      (process_start [] [])\<lparr>effects := [Goto ''s/a'', Goto ''s/b'', Goto ''s/c'']\<rparr>)"
    by code_simp
qed (rule crawlSiteRecursive_visits_once)

section \<open>The embedder retries on quota errors only\<close>

lemma backoff_effects:
  "effects (backoff n val delay w) =
     effects w @ concat (map (\<lambda>k. [Embed_call val, Sleep (delay * 2 ^ k)]) [0..<n])"
proof (induction n arbitrary: delay w)
  case (Suc n)
  have "[0..<Suc n] = 0 # map Suc [0..<n]"
    by (simp add: upt_conv_Cons map_Suc_upt del: upt_Suc)
  then show ?case
    by (simp add: Suc.IH perform_def call_embed_def comp_def mult.assoc del: upt_Suc)
qed simp

lemma backoff_embed_calls: "embed_calls (backoff n val delay w) = embed_calls w + n"
  by (induction n arbitrary: delay w) (simp_all add: perform_def call_embed_def)

lemma embed_loop_hits:
  assumes "rate_limited E val (embed_calls w) n" and "i + int n \<le> retries"
  shows "embed_loop E val retries i delay w =
         embed_loop E val retries (i + int n) (delay * 2 ^ n) (backoff n val delay w)"
  using assms
proof (induction n arbitrary: i delay w)
  case 0
  then show ?case by simp
next
  case (Suc n)
  from Suc.prems(1) obtain err where
    e: "embed_api E (embed_calls w) val = Inl err" "has_statusCode err" "quota_hit err"
    and rest: "rate_limited E val (Suc (embed_calls w)) n"
    by (auto split: sum.splits)
  let ?w = "perform (Sleep delay) (call_embed val w)"
  have c: "embed_calls ?w = Suc (embed_calls w)" by (simp add: perform_def call_embed_def)
  have "i < retries" using Suc.prems(2) by simp
  then have "embed_loop E val retries i delay w = embed_loop E val retries (i + 1) (delay * 2) ?w"
    using e by (subst embed_loop.simps) simp
  also have "\<dots> = embed_loop E val retries (i + 1 + int n) (delay * 2 * 2 ^ n) (backoff n val (delay * 2) ?w)"
    using rest Suc.prems(2) by (intro Suc.IH) (simp_all add: c)
  finally show ?case by (simp add: algebra_simps)
qed

lemma embed_loop_done: "\<not> i < retries \<Longrightarrow>
   embed_loop E val retries i delay w = (Inl (Error ''Max retries reached for embedding''), w)"
  by (subst embed_loop.simps) simp

lemma embed_loop_ok: "i < retries \<Longrightarrow> embed_api E (embed_calls w) val = Inr v \<Longrightarrow>
   embed_loop E val retries i delay w = (Inr v, call_embed val w)"
  by (subst embed_loop.simps) simp

lemma embed_loop_other: "i < retries \<Longrightarrow> embed_api E (embed_calls w) val = Inl err \<Longrightarrow>
   \<not> (has_statusCode err \<and> quota_hit err) \<Longrightarrow>
   embed_loop E val retries i delay w = (Inl err, call_embed val w)"
  by (subst embed_loop.simps) auto

text \<open>
  Claim C4. When the first \<open>N - 1\<close> calls of the embedding model fail with a quota
  error and \<open>N \<le> retries\<close>, then \<open>embedText\<close> returns the embedding if the \<open>N\<close>-th call
  succeeds, and fails at once with the \<open>N\<close>-th call's error if that is of another
  kind, in both cases after \<open>N - 1\<close> rounds of call and sleep and with no sleep after
  the last call; when \<open>retries\<close> calls in a row fail with a quota error, it fails with
  the error \<open>Max retries reached for embedding\<close>. The \<open>k\<close>-th round sleeps for
  \<open>delay * 2 ^ k\<close>: each sleep is twice the one before.
\<close>

theorem embedText_backoff:
  "(1 \<le> N \<and> int N \<le> retries \<and> rate_limited E val (embed_calls w) (N - 1)
      \<and> embed_api E (embed_calls w + (N - 1)) val = Inr v
    \<longrightarrow> embedText E val retries delay w = (Inr v, call_embed val (backoff (N - 1) val delay w)))
   \<and> (rate_limited E val (embed_calls w) (nat retries)
    \<longrightarrow> embedText E val retries delay w =
          (Inl (Error ''Max retries reached for embedding''), backoff (nat retries) val delay w))
   \<and> (1 \<le> N \<and> int N \<le> retries \<and> rate_limited E val (embed_calls w) (N - 1)
      \<and> embed_api E (embed_calls w + (N - 1)) val = Inl err
      \<and> \<not> (has_statusCode err \<and> quota_hit err)
    \<longrightarrow> embedText E val retries delay w = (Inl err, call_embed val (backoff (N - 1) val delay w)))
   \<and> effects (backoff n val delay w) =
        effects w @ concat (map (\<lambda>k. [Embed_call val, Sleep (delay * 2 ^ k)]) [0..<n])"
proof (intro conjI impI)
  assume a: "1 \<le> N \<and> int N \<le> retries \<and> rate_limited E val (embed_calls w) (N - 1)
      \<and> embed_api E (embed_calls w + (N - 1)) val = Inr v"
  then have "embed_loop E val retries 0 delay w =
      embed_loop E val retries (0 + int (N - 1)) (delay * 2 ^ (N - 1)) (backoff (N - 1) val delay w)"
    by (intro embed_loop_hits) auto
  also have "\<dots> = (Inr v, call_embed val (backoff (N - 1) val delay w))"
    using a by (intro embed_loop_ok) (auto simp: backoff_embed_calls)
  finally show "embedText E val retries delay w = (Inr v, call_embed val (backoff (N - 1) val delay w))"
    by (simp add: embedText_def)
next
  assume a: "rate_limited E val (embed_calls w) (nat retries)"
  show "embedText E val retries delay w =
          (Inl (Error ''Max retries reached for embedding''), backoff (nat retries) val delay w)"
  proof (cases "0 \<le> retries")
    case True
    with a have "embed_loop E val retries 0 delay w =
      embed_loop E val retries (0 + int (nat retries)) (delay * 2 ^ nat retries) (backoff (nat retries) val delay w)"
      by (intro embed_loop_hits) auto
    also have "\<dots> = (Inl (Error ''Max retries reached for embedding''), backoff (nat retries) val delay w)"
      using True by (intro embed_loop_done) simp
    finally show ?thesis by (simp add: embedText_def)
  next
    case False
    then show ?thesis by (simp add: embedText_def embed_loop_done)
  qed
next
  assume a: "1 \<le> N \<and> int N \<le> retries \<and> rate_limited E val (embed_calls w) (N - 1)
      \<and> embed_api E (embed_calls w + (N - 1)) val = Inl err
      \<and> \<not> (has_statusCode err \<and> quota_hit err)"
  then have "embed_loop E val retries 0 delay w =
      embed_loop E val retries (0 + int (N - 1)) (delay * 2 ^ (N - 1)) (backoff (N - 1) val delay w)"
    by (intro embed_loop_hits) auto
  also have "\<dots> = (Inl err, call_embed val (backoff (N - 1) val delay w))"
    using a by (intro embed_loop_other) (auto simp: backoff_embed_calls)
  finally show "embedText E val retries delay w = (Inl err, call_embed val (backoff (N - 1) val delay w))"
    by (simp add: embedText_def)
next
  show "effects (backoff n val delay w) =
        effects w @ concat (map (\<lambda>k. [Embed_call val, Sleep (delay * 2 ^ k)]) [0..<n])"
    by (rule backoff_effects)
qed

text \<open>Claim C4 on the small site's embedding model: success at the third attempt of
  five, exhaustion with two retries, a server error at the second attempt, and the
  sleeps of 2000 and 4000 milliseconds.\<close>

theorem embedText_backoff_witness:
  "embedText demo_env ''hello'' 5 2000 (process_start [] []) =
     (Inr [1, 2], call_embed ''hello'' (backoff 2 ''hello'' 2000 (process_start [] [])))
   \<and> embedText demo_env ''hello'' 2 2000 (process_start [] []) =
     (Inl (Error ''Max retries reached for embedding''), backoff 2 ''hello'' 2000 (process_start [] []))
   \<and> embedText demo_env ''bad'' 5 2000 (process_start [] []) =
     (Inl (Status_error (Some 500) (Some ''internal error'')),
      call_embed ''bad'' (backoff 1 ''bad'' 2000 (process_start [] [])))
   \<and> effects (backoff 2 ''hello'' 2000 (process_start [] [])) =
     [Embed_call ''hello'', Sleep 2000, Embed_call ''hello'', Sleep 4000]"
proof -
  let ?w = "process_start [] []"
  have a: "1 \<le> (3::nat) \<and> int 3 \<le> 5 \<and> rate_limited demo_env ''hello'' (embed_calls ?w) (3 - 1)
      \<and> embed_api demo_env (embed_calls ?w + (3 - 1)) ''hello'' = Inr [1, 2]"
    by code_simp
  have b: "rate_limited demo_env ''hello'' (embed_calls ?w) (nat 2)"
    by code_simp
  have c: "1 \<le> (2::nat) \<and> int 2 \<le> 5 \<and> rate_limited demo_env ''bad'' (embed_calls ?w) (2 - 1)
      \<and> embed_api demo_env (embed_calls ?w + (2 - 1)) ''bad'' = Inl (Status_error (Some 500) (Some ''internal error''))
      \<and> \<not> (has_statusCode (Status_error (Some 500) (Some ''internal error''))
            \<and> quota_hit (Status_error (Some 500) (Some ''internal error'')))"
    by code_simp
  have n: "(3::nat) - 1 = 2" "nat 2 = 2" "(2::nat) - 1 = 1" by simp_all
  have e: "[0..<2] = [0, Suc 0]" by (simp add: upt_conv_Cons)
  note t1 = embedText_backoff[of 3 5 demo_env "''hello''" ?w "[1, 2]" 2000 "Error []" 2]
  note t2 = embedText_backoff[of 3 2 demo_env "''hello''" ?w "[1, 2]" 2000 "Error []" 2]
  note t3 = embedText_backoff[of 2 5 demo_env "''bad''" ?w "[1, 2]" 2000
              "Status_error (Some 500) (Some ''internal error'')" 2]
  have "embedText demo_env ''hello'' 5 2000 ?w =
     (Inr [1, 2], call_embed ''hello'' (backoff (3 - 1) ''hello'' 2000 ?w))"
    by (rule mp[OF t1[THEN conjunct1] a])
  then have 1: "embedText demo_env ''hello'' 5 2000 ?w =
     (Inr [1, 2], call_embed ''hello'' (backoff 2 ''hello'' 2000 ?w))"
    by (simp only: n)
  have "embedText demo_env ''hello'' 2 2000 ?w =
     (Inl (Error ''Max retries reached for embedding''), backoff (nat 2) ''hello'' 2000 ?w)"
    by (rule mp[OF t2[THEN conjunct2, THEN conjunct1] b])
  then have 2: "embedText demo_env ''hello'' 2 2000 ?w =
     (Inl (Error ''Max retries reached for embedding''), backoff 2 ''hello'' 2000 ?w)"
    by (simp only: n)
  have "embedText demo_env ''bad'' 5 2000 ?w =
     (Inl (Status_error (Some 500) (Some ''internal error'')),
      call_embed ''bad'' (backoff (2 - 1) ''bad'' 2000 ?w))"
    by (rule mp[OF t3[THEN conjunct2, THEN conjunct2, THEN conjunct1] c])
  then have 3: "embedText demo_env ''bad'' 5 2000 ?w =
     (Inl (Status_error (Some 500) (Some ''internal error'')),
      call_embed ''bad'' (backoff 1 ''bad'' 2000 ?w))"
    by (simp only: n)
  from t1[THEN conjunct2, THEN conjunct2, THEN conjunct2]
  have 4: "effects (backoff 2 ''hello'' 2000 ?w) =
     [Embed_call ''hello'', Sleep 2000, Embed_call ''hello'', Sleep 4000]"
    by (simp add: process_start_def e)
  from 1 2 3 4 show ?thesis by blast
qed

section \<open>Indexing a page: the existence check and the inserts\<close>

lemma embed_loop_frame:
  "documents (snd (embed_loop E x retries i delay w)) = documents w
   \<and> same_store_flag w (snd (embed_loop E x retries i delay w))"
proof (induction E x retries i delay w rule: embed_loop.induct)
  case (1 E x retries i delay w)
  show ?case
  proof (cases "i < retries")
    case False
    then show ?thesis by (subst (1 2) embed_loop.simps) (simp add: same_store_flag_def)
  next
    case True
    show ?thesis
    proof (cases "embed_api E (embed_calls w) x")
      case (Inr v)
      with True show ?thesis
        by (subst (1 2) embed_loop.simps)
           (simp add: same_store_flag_def call_embed_def perform_def spawns_def)
    next
      case (Inl err)
      show ?thesis
      proof (cases "has_statusCode err \<and> quota_hit err")
        case False
        with True Inl show ?thesis
          by (subst (1 2) embed_loop.simps)
             (auto simp: same_store_flag_def call_embed_def perform_def spawns_def)
      next
        case q: True
        then have "documents (snd (embed_loop E x retries (i + 1) (delay * 2)
                    (perform (Sleep delay) (call_embed x w))))
                 = documents (perform (Sleep delay) (call_embed x w))
            \<and> same_store_flag (perform (Sleep delay) (call_embed x w))
                 (snd (embed_loop E x retries (i + 1) (delay * 2)
                    (perform (Sleep delay) (call_embed x w))))"
          using "1.IH"[OF True Inl] by simp
        moreover have "embed_loop E x retries i delay w =
              embed_loop E x retries (i + 1) (delay * 2) (perform (Sleep delay) (call_embed x w))"
          using True Inl q by (subst embed_loop.simps) simp
        ultimately show ?thesis
          by (simp add: same_store_flag_def call_embed_def perform_def spawns_def)
      qed
    qed
  qed
qed

lemma embedText_frame:
  assumes "embedText E value retries delay w = (r, w')"
  shows "documents w' = documents w" and "same_store_flag w w'"
  using embed_loop_frame[of E "value" retries 0 delay w] assms
  by (simp_all add: embedText_def)










text \<open>
  Claim C9 says that the rows of one pass carry the indices 0, 1, 2, \<dots> without a
  gap. The loop discards what the insert of a chunk row returns. On the page \<open>s/a\<close>,
  which has two chunks, with a store that refuses the first insert and accepts the
  second, the pass returns normally and leaves the single row with index 1; with
  the store that accepts both, the rows carry 0 and 1.
\<close>

theorem ensurePageIndexed_failed_insert_gap:
  "map_option (\<lambda>(r, w'). (r, map chunk_index (documents w')))
     (ensurePageIndexed flaky_env ''s/a'' (process_start [] [])) = Some (Inr (), [1])
   \<and> map_option (\<lambda>(r, w'). (r, map chunk_index (documents w')))
     (ensurePageIndexed demo_env ''s/a'' (process_start [] [])) = Some (Inr (), [0, 1])"
  by code_simp

section \<open>Search returns the rows' texts or the error\<close>




section \<open>The handler: leads and the one-shot trigger\<close>

lemma searchDocuments_frame:
  "same_store_flag w (snd (searchDocuments E q topK w))"
proof -
  obtain r w' where e: "embedText E q 5 2000 w = (r, w')"
    by (cases "embedText E q 5 2000 w") auto
  from embedText_frame(2)[OF e] show ?thesis using e
    by (cases r) (auto simp: searchDocuments_def Let_def same_store_flag_def perform_def spawns_def
                   split: option.splits)
qed

lemma retrieve_frame: "same_store_flag w (snd (retrieve E q w))"
  using searchDocuments_frame[of w E q 4]
  by (auto simp: retrieve_def same_store_flag_def split: prod.splits sum.splits)

lemma start_indexing_flag:
  "indexingStarted (start_indexing w)"
  "flag_counts w \<Longrightarrow> flag_counts (start_indexing w)"
  "indexingStarted w \<Longrightarrow> start_indexing w = w"
  by (auto simp: start_indexing_def flag_counts_def perform_def spawns_def)

lemma POST_flag:
  "flag_counts w \<Longrightarrow> flag_counts (snd (POST E b w))"
  "indexingStarted w \<Longrightarrow> indexingStarted (snd (POST E b w)) \<and> spawns (snd (POST E b w)) = spawns w"
proof -
  have form: "indexingStarted (snd (POST E b w)) = indexingStarted w
              \<and> spawns (snd (POST E b w)) = spawns w" if "formData b = Some f" for f
    using that by (auto simp: POST_def spawns_def split: option.splits)
  have chat: "indexingStarted (snd (POST E b w)) = indexingStarted (start_indexing w)
              \<and> spawns (snd (POST E b w)) = spawns (start_indexing w)" if "formData b = None"
    using that retrieve_frame[of "start_indexing w" E "lastUserText b"]
    by (auto simp: POST_def same_store_flag_def perform_def spawns_def split: prod.splits)
  show "flag_counts w \<Longrightarrow> flag_counts (snd (POST E b w))"
    using form chat start_indexing_flag(2)[of w]
    by (cases "formData b") (auto simp: flag_counts_def)
  show "indexingStarted w \<Longrightarrow> indexingStarted (snd (POST E b w)) \<and> spawns (snd (POST E b w)) = spawns w"
    using form chat start_indexing_flag(3)[of w]
    by (cases "formData b") auto
qed

lemma serve_flag:
  "flag_counts w \<Longrightarrow> flag_counts (serve E reqs w)"
  "indexingStarted w \<Longrightarrow> indexingStarted (serve E reqs w) \<and> spawns (serve E reqs w) = spawns w"
proof (induction reqs arbitrary: w)
  case (Cons b bs)
  { case 1 then show ?case using Cons.IH(1) POST_flag(1) by simp }
  { case 2 then show ?case using Cons.IH(2)[of "snd (POST E b w)"] POST_flag(2)[of w E b] by simp }
qed simp_all

text \<open>
  Claim C8. The flag is false when the process starts. After any sequence of
  requests at most one background run has been started, and exactly one if and only
  if the flag is set; once the flag is set it stays set and no further run is
  started.
\<close>

theorem indexing_triggered_once:
  "\<not> indexingStarted (process_start docs leads)
   \<and> spawns (serve E reqs (process_start docs leads)) \<le> 1
   \<and> (indexingStarted (serve E reqs (process_start docs leads))
        \<longleftrightarrow> spawns (serve E reqs (process_start docs leads)) = 1)
   \<and> (indexingStarted w \<longrightarrow> indexingStarted (serve E reqs w) \<and> spawns (serve E reqs w) = spawns w)"
proof -
  have "flag_counts (process_start docs leads)"
    by (simp add: flag_counts_def process_start_def spawns_def)
  then have "flag_counts (serve E reqs (process_start docs leads))" by (rule serve_flag(1))
  then show ?thesis using serve_flag(2)[of w E reqs]
    by (auto simp: flag_counts_def process_start_def split: if_splits)
qed

text \<open>Claim C8 after a first chat request: the flag is set, and a form and another chat
  request leave it set, with one background run in all.\<close>

theorem indexing_triggered_once_witness:
  "indexingStarted (snd (POST demo_env (chat_body ''hi'') (process_start [] [])))
   \<and> indexingStarted (serve demo_env [form_body jane, chat_body ''hello'']
        (snd (POST demo_env (chat_body ''hi'') (process_start [] []))))
   \<and> spawns (serve demo_env [form_body jane, chat_body ''hello'']
        (snd (POST demo_env (chat_body ''hi'') (process_start [] [])))) = 1"
proof -
  let ?w = "snd (POST demo_env (chat_body ''hi'') (process_start [] []))"
  have f: "indexingStarted ?w" by code_simp
  have s: "spawns ?w = 1" by code_simp
  from indexing_triggered_once[of "[]" "[]" demo_env "[form_body jane, chat_body ''hello'']" ?w] f s
  show ?thesis by simp
qed

text \<open>
  Claim C10. When the last user message carries a form, the handler leaves the flag,
  the log of effects (so: no embedding, no store query, no language-model call, no
  background run), the count of embedding calls and the documents as they were; it
  answers with the failure response and an unchanged world, or with the thanks
  response and one more lead.
\<close>

theorem POST_form_returns_early:
  assumes "formData b = Some f"
  shows "indexingStarted (snd (POST E b w)) = indexingStarted w
     \<and> effects (snd (POST E b w)) = effects w
     \<and> embed_calls (snd (POST E b w)) = embed_calls w
     \<and> documents (snd (POST E b w)) = documents w
     \<and> (POST E b w = (Failed_to_save_lead, w)
        \<or> POST E b w = (Thanks (fullName f), w\<lparr>user_leads := user_leads w @ [lead_of_form f]\<rparr>))"
  using assms by (auto simp: POST_def split: option.splits)

text \<open>Claim C10 for a submitted form: the flag stays false and nothing is logged.\<close>

theorem POST_form_returns_early_witness:
  "formData (form_body jane) = Some jane
   \<and> indexingStarted (snd (POST demo_env (form_body jane) (process_start [] []))) = False
   \<and> effects (snd (POST demo_env (form_body jane) (process_start [] []))) = []"
proof -
  have f: "formData (form_body jane) = Some jane" by code_simp
  from POST_form_returns_early[OF f, of demo_env "process_start [] []"] f
  show ?thesis by (simp add: process_start_def)
qed

text \<open>The chat form's test of an address accepts exactly the strings of the shape
  \<open>a@b.c\<close> with \<open>a\<close>, \<open>b\<close>, \<open>c\<close> non-empty and free of whitespace and \<open>@\<close>, as its
  regular expression says.\<close>

lemma dot_email_char: "email_char CHR ''.''"
  by (simp add: email_char_def is_ws_def)

lemma emailRegex_test_iff:
  "emailRegex_test s \<longleftrightarrow>
     (\<exists>a b c. s = a @ ''@'' @ b @ ''.'' @ c \<and> a \<noteq> [] \<and> b \<noteq> [] \<and> c \<noteq> []
        \<and> list_all email_char a \<and> list_all email_char b \<and> list_all email_char c)"
proof
  assume t: "emailRegex_test s"
  define a where "a = takeWhile (\<lambda>c. c \<noteq> CHR ''@'') s"
  define rest where "rest = dropWhile (\<lambda>c. c \<noteq> CHR ''@'') s"
  from t have p: "a \<noteq> []" "list_all email_char a" "rest \<noteq> []" "list_all email_char (tl rest)"
    "CHR ''.'' \<in> set (butlast (tl (tl rest)))"
    by (simp_all add: emailRegex_test_def Let_def a_def rest_def)
  have s: "s = a @ rest" by (simp add: a_def rest_def)
  have "hd rest = CHR ''@''"
    using hd_dropWhile[of "\<lambda>c. c \<noteq> CHR ''@''" s] p(3) by (simp add: rest_def)
  with p(3) have r: "rest = CHR ''@'' # tl rest" by (cases rest) auto
  from p(5) obtain d0 r1 where d: "tl rest = d0 # r1" by (cases "tl rest") auto
  with p(5) obtain r2 dl where l: "r1 = r2 @ [dl]" by (cases r1 rule: rev_cases) auto
  with p(5) d obtain x y where m: "r2 = x @ CHR ''.'' # y" by (auto dest: split_list)
  have "s = a @ ''@'' @ (d0 # x) @ ''.'' @ (y @ [dl])" using s r d l m by simp
  moreover have "list_all email_char (d0 # x)" "list_all email_char (y @ [dl])"
    using p(4) d l m by simp_all
  ultimately show "\<exists>a b c. s = a @ ''@'' @ b @ ''.'' @ c \<and> a \<noteq> [] \<and> b \<noteq> [] \<and> c \<noteq> []
        \<and> list_all email_char a \<and> list_all email_char b \<and> list_all email_char c"
    using p(1,2) by blast
next
  assume "\<exists>a b c. s = a @ ''@'' @ b @ ''.'' @ c \<and> a \<noteq> [] \<and> b \<noteq> [] \<and> c \<noteq> []
        \<and> list_all email_char a \<and> list_all email_char b \<and> list_all email_char c"
  then obtain a b c where s: "s = a @ ''@'' @ b @ ''.'' @ c" and ne: "a \<noteq> []" "b \<noteq> []" "c \<noteq> []"
    and ok: "list_all email_char a" "list_all email_char b" "list_all email_char c"
    by blast
  from ok(1) have na: "\<forall>x\<in>set a. x \<noteq> CHR ''@''" by (auto simp: list_all_iff email_char_def)
  have tw: "takeWhile (\<lambda>c. c \<noteq> CHR ''@'') s = a"
    using na s by (simp add: takeWhile_append2)
  have dw: "dropWhile (\<lambda>c. c \<noteq> CHR ''@'') s = ''@'' @ b @ ''.'' @ c"
    using na s by (simp add: dropWhile_append2)
  obtain b0 b1 where b: "b = b0 # b1" using ne(2) by (cases b) auto
  obtain c1 cl where c: "c = c1 @ [cl]" using ne(3) by (cases c rule: rev_cases) auto
  have "butlast (tl (b @ ''.'' @ c)) = b1 @ ''.'' @ c1" using b c by (simp add: butlast_append)
  then show "emailRegex_test s"
    using tw dw ne ok dot_email_char by (simp add: emailRegex_test_def Let_def)
qed

text \<open>
  Claim C1 says that a form with an empty name or a malformed e-mail address is
  rejected before any store write. The handler checks neither: the form of the
  spec's own scenario, name \<open>Jane Doe\<close> and e-mail \<open>not-an-email\<close>, which the chat
  form's own check of an address refuses, is inserted as a lead and answered with
  the thanks response.
\<close>

theorem POST_accepts_malformed_email:
  "\<not> emailRegex_test (email jane)
   \<and> POST demo_env (form_body jane) (process_start [] []) =
       (Thanks ''Jane Doe'', (process_start [] [])\<lparr>user_leads := [lead_of_form jane]\<rparr>)
   \<and> lead_email (lead_of_form jane) = ''not-an-email''"
  by code_simp

end
